theory Spec2Isabelle
  imports Complex_Main "HOL-Library.Word" "HOL-Library.AList"
begin

section \<open>N-up imposition of PDF pages: the engine \<open>impose8up\<close>\<close>

text \<open>
  The development follows the function \<open>impose8up\<close> and its helper \<open>isProbablyPdf\<close>.
  JavaScript numbers used for measurements are computed exactly, without the rounding of
  IEEE doubles: what is computed from the options alone is finite and is a real number;
  the scale of a page, which divides by the page's width and height, and what is computed
  from it are values of the type \<open>number\<close>, with the infinities and NaN of JavaScript.
  Counters and indices are natural numbers. The PDF library (\<open>pdf-lib\<close>) is not part of
  the repository: its
  parser (\<open>PDFDocument.load\<close> with \<open>getPageCount\<close>) and its serializer (\<open>save\<close>) are
  parameters of the engine; creating the output document, adding a sheet, embedding pages
  and drawing a page are taken to succeed and to do what their names say.
\<close>

subsection \<open>JavaScript numbers\<close>

text \<open>
  The operators \<open>+\<close>, \<open>-\<close>, \<open>*\<close>, \<open>/\<close> and \<open>Math.min\<close> on finite numbers, the two infinities and
  NaN, as IEEE arithmetic defines them, without rounding and with zero taken as the
  positive zero: a positive number divided by zero is \<open>Infinity\<close>, a negative one
  \<open>-Infinity\<close>, zero divided by zero and zero times an infinity are NaN, and NaN spreads.
\<close>

datatype number = Num real | Infinity | MinusInfinity | NaN

fun js_add :: "number \<Rightarrow> number \<Rightarrow> number" where
  "js_add NaN b = NaN"
| "js_add a NaN = NaN"
| "js_add (Num a) (Num b) = Num (a + b)"
| "js_add Infinity MinusInfinity = NaN"
| "js_add MinusInfinity Infinity = NaN"
| "js_add Infinity b = Infinity"
| "js_add a Infinity = Infinity"
| "js_add MinusInfinity b = MinusInfinity"
| "js_add a MinusInfinity = MinusInfinity"

fun js_sub :: "number \<Rightarrow> number \<Rightarrow> number" where
  "js_sub NaN b = NaN"
| "js_sub a NaN = NaN"
| "js_sub (Num a) (Num b) = Num (a - b)"
| "js_sub Infinity Infinity = NaN"
| "js_sub MinusInfinity MinusInfinity = NaN"
| "js_sub Infinity b = Infinity"
| "js_sub a MinusInfinity = Infinity"
| "js_sub MinusInfinity b = MinusInfinity"
| "js_sub a Infinity = MinusInfinity"

definition signed_infinity :: "real \<Rightarrow> number" where
  "signed_infinity a = (if 0 < a then Infinity else if a < 0 then MinusInfinity else NaN)"

fun js_mul :: "number \<Rightarrow> number \<Rightarrow> number" where
  "js_mul NaN b = NaN"
| "js_mul a NaN = NaN"
| "js_mul (Num a) (Num b) = Num (a * b)"
| "js_mul (Num a) Infinity = signed_infinity a"
| "js_mul (Num a) MinusInfinity = signed_infinity (- a)"
| "js_mul Infinity (Num b) = signed_infinity b"
| "js_mul MinusInfinity (Num b) = signed_infinity (- b)"
| "js_mul Infinity Infinity = Infinity"
| "js_mul Infinity MinusInfinity = MinusInfinity"
| "js_mul MinusInfinity Infinity = MinusInfinity"
| "js_mul MinusInfinity MinusInfinity = Infinity"

fun js_div :: "number \<Rightarrow> number \<Rightarrow> number" where
  "js_div NaN b = NaN"
| "js_div a NaN = NaN"
| "js_div (Num a) (Num b) = (if b = 0 then signed_infinity a else Num (a / b))"
| "js_div (Num a) Infinity = Num 0"
| "js_div (Num a) MinusInfinity = Num 0"
| "js_div Infinity (Num b) = (if 0 \<le> b then Infinity else MinusInfinity)"
| "js_div MinusInfinity (Num b) = (if 0 \<le> b then MinusInfinity else Infinity)"
| "js_div a b = NaN"

fun js_min :: "number \<Rightarrow> number \<Rightarrow> number" where
  "js_min NaN b = NaN"
| "js_min a NaN = NaN"
| "js_min MinusInfinity b = MinusInfinity"
| "js_min a MinusInfinity = MinusInfinity"
| "js_min Infinity b = b"
| "js_min a Infinity = a"
| "js_min (Num a) (Num b) = Num (min a b)"

subsection \<open>Data\<close>

type_synonym byte = "8 word"

record input_file =
  name :: string
  data :: "byte list"

datatype paper_kind = A4 | A3
datatype orientation_kind = landscape | portrait
datatype layout_kind = L4x2 | L2x4

record ImpositionOptions =
  paper :: paper_kind
  orientation :: orientation_kind
  layout :: layout_kind
  margin_mm :: real
  gap_mm :: real

record BadFile =
  path :: string
  error :: string

text \<open>
  A parsed page is known by the width and height that its embedded form reports.
  An opened document is an object: \<open>doc_ref\<close> is its identity (two documents opened by
  two calls of the parser are two objects, also when their contents agree), \<open>doc_pages\<close>
  its pages in page order.
\<close>

record pdf_page =
  page_width :: real
  page_height :: real

record PDFDocument =
  doc_ref :: nat
  doc_pages :: "pdf_page list"

text \<open>An element of \<open>allPages\<close>.\<close>

record page_ref =
  doc :: PDFDocument
  pageIndex :: nat

text \<open>
  The value of \<open>doc.getPage(idx)\<close> remembers the document it belongs to and its index
  there; \<open>out.embedPages\<close> wraps each page it is given, in the order given, into an
  embedded page that reports the page's width and height.
\<close>

record PDFPage =
  owner_ref :: nat
  owner_index :: nat
  box :: pdf_page

record PDFEmbeddedPage =
  embedded_from :: PDFPage
  width :: real
  height :: real

text \<open>
  One call of \<open>sheet.drawPage\<close>, and one page of the output document. In the result, the
  optional fields are options; its field \<open>error\<close> is \<open>error_message\<close> here, \<open>error\<close> being
  the field of \<open>BadFile\<close>.
\<close>

record draw_op =
  drawn_page :: PDFEmbeddedPage
  draw_x :: number
  draw_y :: number
  draw_width :: number
  draw_height :: number

record sheet =
  sheet_size :: "real \<times> real"
  draws :: "draw_op list"

record ImpositionResult =
  success :: bool
  pdfBytes :: "byte list option"
  total_pages :: "nat option"
  sheets :: "nat option"
  bad_files :: "BadFile list"
  total_bad :: nat
  error_message :: "string option"

text \<open>
  What can go wrong inside the assembling loops: \<open>doc.getPage\<close> throws on an index out
  of range, and reading \<open>.width\<close> of a missing map entry or of an array element out of
  range is a \<open>TypeError\<close>.
\<close>

datatype failure = PageIndexOutOfRange | TypeError

type_synonym loader = "byte list \<Rightarrow> string + pdf_page list"
type_synonym saver = "sheet list \<Rightarrow> byte list"

subsection \<open>Constants and geometry\<close>

fun PAPER_SIZES :: "paper_kind \<Rightarrow> real \<times> real" where
  "PAPER_SIZES A4 = (595, 842)"
| "PAPER_SIZES A3 = (842, 1191)"

definition MM_TO_PT :: real where
  "MM_TO_PT = 72 / 25.4"

definition sheet_wh :: "ImpositionOptions \<Rightarrow> real \<times> real" where
  "sheet_wh options =
     (case PAPER_SIZES (paper options) of (w, h) \<Rightarrow>
        if orientation options = landscape then (h, w) else (w, h))"

definition sheet_w :: "ImpositionOptions \<Rightarrow> real" where
  "sheet_w options = fst (sheet_wh options)"

definition sheet_h :: "ImpositionOptions \<Rightarrow> real" where
  "sheet_h options = snd (sheet_wh options)"

definition grid :: "ImpositionOptions \<Rightarrow> nat \<times> nat" where
  "grid options = (if layout options = L4x2 then (4, 2) else (2, 4))"

definition cols :: "ImpositionOptions \<Rightarrow> nat" where
  "cols options = fst (grid options)"

definition rows :: "ImpositionOptions \<Rightarrow> nat" where
  "rows options = snd (grid options)"

definition margin :: "ImpositionOptions \<Rightarrow> real" where
  "margin options = margin_mm options * MM_TO_PT"

definition gap :: "ImpositionOptions \<Rightarrow> real" where
  "gap options = gap_mm options * MM_TO_PT"

definition cellW :: "ImpositionOptions \<Rightarrow> real" where
  "cellW options =
     (sheet_w options - 2 * margin options - (real (cols options) - 1) * gap options)
       / real (cols options)"

definition cellH :: "ImpositionOptions \<Rightarrow> real" where
  "cellH options =
     (sheet_h options - 2 * margin options - (real (rows options) - 1) * gap options)
       / real (rows options)"

definition perSheet :: "ImpositionOptions \<Rightarrow> nat" where
  "perSheet options = cols options * rows options"

subsection \<open>Validation and flattening\<close>

definition isProbablyPdf :: "byte list \<Rightarrow> bool" where
  "isProbablyPdf buffer =
     (if length buffer < 1024 then False
      else buffer ! 0 = 0x25 \<and> buffer ! 1 = 0x50 \<and> buffer ! 2 = 0x44
         \<and> buffer ! 3 = 0x46 \<and> buffer ! 4 = 0x2d)"

text \<open>
  The body of the loop over \<open>inputFiles\<close>, for the file met at iteration \<open>k\<close>: either the
  record pushed to \<open>bad\<close>, or the page references pushed to \<open>allPages\<close>. The parser's
  result \<open>Inl msg\<close> is an exception caught with message \<open>msg\<close>. The document opened at
  iteration \<open>k\<close> is a new object; the iteration number serves as its identity.
\<close>

definition check_file :: "loader \<Rightarrow> nat \<Rightarrow> input_file \<Rightarrow> BadFile + page_ref list" where
  "check_file load k file =
     (if \<not> isProbablyPdf (data file)
      then Inl \<lparr>path = name file, error = ''Not a valid PDF (bad header or too small)''\<rparr>
      else case load (data file) of
             Inl msg \<Rightarrow> Inl \<lparr>path = name file, error = msg\<rparr>
           | Inr pages \<Rightarrow>
               (let d = \<lparr>doc_ref = k, doc_pages = pages\<rparr>; count = length pages
                in if count = 0 then Inl \<lparr>path = name file, error = ''0 pages''\<rparr>
                   else Inr (map (\<lambda>i. \<lparr>doc = d, pageIndex = i\<rparr>) [0..<count])))"

fun load_files ::
  "loader \<Rightarrow> nat \<Rightarrow> input_file list \<Rightarrow> page_ref list \<times> BadFile list \<Rightarrow> page_ref list \<times> BadFile list"
where
  "load_files load k [] (allPages, bad) = (allPages, bad)"
| "load_files load k (file # rest) (allPages, bad) =
     (case check_file load k file of
        Inl b \<Rightarrow> load_files load (Suc k) rest (allPages, bad @ [b])
      | Inr refs \<Rightarrow> load_files load (Suc k) rest (allPages @ refs, bad))"

subsection \<open>Assembling one sheet\<close>

text \<open>
  A JavaScript \<open>Map\<close> keeps its entries in insertion order and \<open>set\<close> replaces the value
  of a key that is present: an association list with \<open>AList.update\<close>. The keys are
  document objects. In \<open>collect_needed\<close> the three steps of the source (enter an empty
  array for a document not yet present, fetch the document's array, push the index onto
  it) are one update with the array found, or the empty one, extended by the index.
\<close>

fun collect_needed ::
  "page_ref list \<Rightarrow> (PDFDocument \<times> nat list) list \<Rightarrow> (PDFDocument \<times> nat list) list"
where
  "collect_needed [] neededByDoc = neededByDoc"
| "collect_needed (p # chunk) neededByDoc =
     (let indices = (case map_of neededByDoc (doc p) of None \<Rightarrow> [] | Some l \<Rightarrow> l)
      in collect_needed chunk (AList.update (doc p) (indices @ [pageIndex p]) neededByDoc))"

definition getPage :: "PDFDocument \<Rightarrow> nat \<Rightarrow> failure + PDFPage" where
  "getPage d idx =
     (if idx < length (doc_pages d)
      then Inr \<lparr>owner_ref = doc_ref d, owner_index = idx, box = doc_pages d ! idx\<rparr>
      else Inl PageIndexOutOfRange)"

fun getPages :: "PDFDocument \<Rightarrow> nat list \<Rightarrow> failure + PDFPage list" where
  "getPages d [] = Inr []"
| "getPages d (idx # indices) =
     (case getPage d idx of
        Inl e \<Rightarrow> Inl e
      | Inr p \<Rightarrow> (case getPages d indices of Inl e \<Rightarrow> Inl e | Inr ps \<Rightarrow> Inr (p # ps)))"

definition embedPage :: "PDFPage \<Rightarrow> PDFEmbeddedPage" where
  "embedPage p = \<lparr>embedded_from = p, width = page_width (box p), height = page_height (box p)\<rparr>"

definition embedPages :: "PDFPage list \<Rightarrow> PDFEmbeddedPage list" where
  "embedPages ps = map embedPage ps"

fun embed_needed ::
  "(PDFDocument \<times> nat list) list \<Rightarrow> (PDFDocument \<times> PDFEmbeddedPage list) list
     \<Rightarrow> failure + (PDFDocument \<times> PDFEmbeddedPage list) list"
where
  "embed_needed [] embeddedMap = Inr embeddedMap"
| "embed_needed ((d, indices) # rest) embeddedMap =
     (case getPages d indices of
        Inl e \<Rightarrow> Inl e
      | Inr ps \<Rightarrow> embed_needed rest (AList.update d (embedPages ps) embeddedMap))"

text \<open>The origin of cell \<open>j\<close> of a sheet (the variables \<open>x\<close> and \<open>y\<close> of the placing loop).\<close>

definition cell_x :: "ImpositionOptions \<Rightarrow> nat \<Rightarrow> real" where
  "cell_x options j =
     (let col = j mod cols options
      in margin options + real col * (cellW options + gap options))"

definition cell_y :: "ImpositionOptions \<Rightarrow> nat \<Rightarrow> real" where
  "cell_y options j =
     (let row = j div cols options
      in sheet_h options - margin options - (real row + 1) * cellH options
           - real row * gap options)"

text \<open>
  The arguments of \<open>sheet.drawPage\<close> for the embedded page placed in cell \<open>j\<close>. The cell's
  origin and size are finite; the page's width and height are finite and may be zero.
\<close>

definition place :: "ImpositionOptions \<Rightarrow> nat \<Rightarrow> PDFEmbeddedPage \<Rightarrow> draw_op" where
  "place options j embeddedPage =
     (let x = cell_x options j;
          y = cell_y options j;
          srcW = width embeddedPage;
          srcH = height embeddedPage;
          scale = js_min (js_div (Num (cellW options)) (Num srcW))
                         (js_div (Num (cellH options)) (Num srcH));
          scaledW = js_mul (Num srcW) scale;
          scaledH = js_mul (Num srcH) scale;
          offsetX = js_add (Num x) (js_div (js_sub (Num (cellW options)) scaledW) (Num 2));
          offsetY = js_add (Num y) (js_div (js_sub (Num (cellH options)) scaledH) (Num 2))
      in \<lparr>drawn_page = embeddedPage, draw_x = offsetX, draw_y = offsetY,
          draw_width = scaledW, draw_height = scaledH\<rparr>)"

fun place_chunk ::
  "ImpositionOptions \<Rightarrow> (PDFDocument \<times> PDFEmbeddedPage list) list \<Rightarrow> nat \<Rightarrow> page_ref list
     \<Rightarrow> (PDFDocument \<times> nat) list \<Rightarrow> failure + draw_op list"
where
  "place_chunk options embeddedMap j [] consumedByDoc = Inr []"
| "place_chunk options embeddedMap j (p # chunk) consumedByDoc =
     (let consumed = (case map_of consumedByDoc (doc p) of None \<Rightarrow> 0 | Some n \<Rightarrow> n)
      in case map_of embeddedMap (doc p) of
           None \<Rightarrow> Inl TypeError
         | Some embedded \<Rightarrow>
             if consumed < length embedded
             then (case place_chunk options embeddedMap (Suc j) chunk
                          (AList.update (doc p) (consumed + 1) consumedByDoc) of
                     Inl e \<Rightarrow> Inl e
                   | Inr ds \<Rightarrow> Inr (place options j (embedded ! consumed) # ds))
             else Inl TypeError)"

definition make_sheet :: "ImpositionOptions \<Rightarrow> page_ref list \<Rightarrow> failure + sheet" where
  "make_sheet options chunk =
     (case embed_needed (collect_needed chunk []) [] of
        Inl e \<Rightarrow> Inl e
      | Inr embeddedMap \<Rightarrow>
          (case place_chunk options embeddedMap 0 chunk [] of
             Inl e \<Rightarrow> Inl e
           | Inr ds \<Rightarrow> Inr \<lparr>sheet_size = (sheet_w options, sheet_h options), draws = ds\<rparr>))"

subsection \<open>The loop over sheets and the engine\<close>

function sheet_loop :: "ImpositionOptions \<Rightarrow> page_ref list \<Rightarrow> nat \<Rightarrow> failure + sheet list" where
  "sheet_loop options allPages i =
     (if i < length allPages
      then (let chunk = take (perSheet options) (drop i allPages)
            in case make_sheet options chunk of
                 Inl e \<Rightarrow> Inl e
               | Inr s \<Rightarrow>
                   (case sheet_loop options allPages (i + perSheet options) of
                      Inl e \<Rightarrow> Inl e
                    | Inr out \<Rightarrow> Inr (s # out)))
      else Inr [])"
  by pat_completeness auto
termination
  by (relation "measure (\<lambda>(options, allPages, i). length allPages - i)")
     (auto simp: perSheet_def cols_def rows_def grid_def)

declare sheet_loop.simps [simp del]

definition no_valid_pdf :: string where
  "no_valid_pdf =
     ''Aucun PDF valide n'' @ [CHR 0x27] @ ''a pu '' @ [CHR 0xC3, CHR 0xAA] @ ''tre ouvert.''"

definition impose8up ::
  "loader \<Rightarrow> saver \<Rightarrow> input_file list \<Rightarrow> ImpositionOptions \<Rightarrow> failure + ImpositionResult"
where
  "impose8up load save inputFiles options =
     (case load_files load 0 inputFiles ([], []) of (allPages, bad) \<Rightarrow>
        if length allPages = 0
        then Inr \<lparr>success = False, pdfBytes = None, total_pages = None, sheets = None,
                 bad_files = take 50 bad, total_bad = length bad,
                 error_message = Some no_valid_pdf\<rparr>
        else (case sheet_loop options allPages 0 of
                Inl e \<Rightarrow> Inl e
              | Inr out \<Rightarrow>
                  Inr \<lparr>success = True, pdfBytes = Some (save out),
                       total_pages = Some (length allPages), sheets = Some (length out),
                       bad_files = take 50 bad, total_bad = length bad,
                       error_message = None\<rparr>))"

subsection \<open>Notions used to state the properties\<close>

text \<open>
  \<open>flatten\<close> and \<open>rejected\<close> are the values of \<open>allPages\<close> and \<open>bad\<close> after the loop over
  the inputs, \<open>out_document\<close> the pages of \<open>out\<close> when it is saved. The \<open>sample_\<close> constants
  are concrete inputs: \<open>sample_load\<close> fails on a buffer of 1024 bytes and finds
  \<open>n - 1025\<close> pages of 595 by 842 points in a buffer of \<open>n\<close> bytes.
\<close>

definition flatten :: "loader \<Rightarrow> input_file list \<Rightarrow> page_ref list" where
  "flatten load inputFiles = fst (load_files load 0 inputFiles ([], []))"

definition rejected :: "loader \<Rightarrow> input_file list \<Rightarrow> BadFile list" where
  "rejected load inputFiles = snd (load_files load 0 inputFiles ([], []))"

definition out_document ::
  "loader \<Rightarrow> input_file list \<Rightarrow> ImpositionOptions \<Rightarrow> failure + sheet list" where
  "out_document load inputFiles options = sheet_loop options (flatten load inputFiles) 0"

definition accepted :: "loader \<Rightarrow> input_file \<Rightarrow> bool" where
  "accepted load file = (case check_file load 0 file of Inl b \<Rightarrow> False | Inr refs \<Rightarrow> True)"

definition rejection :: "loader \<Rightarrow> input_file \<Rightarrow> BadFile list" where
  "rejection load file = (case check_file load 0 file of Inl b \<Rightarrow> [b] | Inr refs \<Rightarrow> [])"

definition parsed :: "loader \<Rightarrow> input_file \<Rightarrow> pdf_page list" where
  "parsed load file = (case load (data file) of Inl msg \<Rightarrow> [] | Inr pages \<Rightarrow> pages)"

definition document_refs :: "loader \<Rightarrow> nat \<Rightarrow> input_file \<Rightarrow> page_ref list" where
  "document_refs load k file =
     (if accepted load file
      then map (\<lambda>i. \<lparr>doc = \<lparr>doc_ref = k, doc_pages = parsed load file\<rparr>, pageIndex = i\<rparr>)
             [0..<length (parsed load file)]
      else [])"

definition pdf_header :: "byte list" where
  "pdf_header = [0x25, 0x50, 0x44, 0x46, 0x2d]"

definition sample_pdf :: "nat \<Rightarrow> byte list" where
  "sample_pdf n = pdf_header @ replicate (1019 + n) 0"

definition sample_load :: loader where
  "sample_load bytes =
     (if length bytes = 1024 then Inl ''Failed to parse PDF document''
      else Inr (replicate (length bytes - 1025) \<lparr>page_width = 595, page_height = 842\<rparr>))"

definition sample_files :: "input_file list" where
  "sample_files =
     [\<lparr>name = ''a.pdf'', data = sample_pdf 2\<rparr>,
      \<lparr>name = ''notes.txt'', data = []\<rparr>,
      \<lparr>name = ''b.pdf'', data = sample_pdf 10\<rparr>,
      \<lparr>name = ''broken.pdf'', data = sample_pdf 0\<rparr>,
      \<lparr>name = ''empty.pdf'', data = sample_pdf 1\<rparr>]"

definition sample_options :: ImpositionOptions where
  "sample_options =
     \<lparr>paper = A4, orientation = landscape, layout = L4x2, margin_mm = 6, gap_mm = 3\<rparr>"

definition sample_save :: saver where
  "sample_save out = pdf_header"

definition text_file :: input_file where
  "text_file = \<lparr>name = ''notes.txt'', data = []\<rparr>"

definition emb_of :: "page_ref \<Rightarrow> PDFEmbeddedPage" where
  "emb_of p = embedPage \<lparr>owner_ref = doc_ref (doc p), owner_index = pageIndex p,
                          box = doc_pages (doc p) ! pageIndex p\<rparr>"

definition in_range :: "page_ref \<Rightarrow> bool" where
  "in_range p = (pageIndex p < length (doc_pages (doc p)))"

fun placed :: "ImpositionOptions \<Rightarrow> nat \<Rightarrow> page_ref list \<Rightarrow> draw_op list" where
  "placed options j [] = []"
| "placed options j (p # chunk) = place options j (emb_of p) # placed options (Suc j) chunk"

definition source_of :: "input_file list \<Rightarrow> page_ref \<Rightarrow> input_file \<times> nat" where
  "source_of files p = (files ! doc_ref (doc p), pageIndex p)"

definition placement_of ::
  "input_file list \<Rightarrow> draw_op \<Rightarrow> (input_file \<times> nat) \<times> (number \<times> number \<times> number \<times> number)" where
  "placement_of files d =
     ((files ! owner_ref (embedded_from (drawn_page d)), owner_index (embedded_from (drawn_page d))),
      (draw_x d, draw_y d, draw_width d, draw_height d))"

definition file_pages :: "loader \<Rightarrow> input_file \<Rightarrow> (input_file \<times> nat) list" where
  "file_pages load file =
     (if accepted load file then map (\<lambda>i. (file, i)) [0..<length (parsed load file)] else [])"



section \<open>Auxiliary facts\<close>

lemma collect_needed_lookup:
  "map_of (collect_needed chunk m) d =
     (if d \<in> doc ` set chunk
      then Some ((case map_of m d of None \<Rightarrow> [] | Some l \<Rightarrow> l)
                   @ map pageIndex (filter (\<lambda>p. doc p = d) chunk))
      else map_of m d)"
proof (induction chunk arbitrary: m)
  case Nil
  show ?case by simp
next
  case (Cons p chunk)
  show ?case
    by (auto simp: Cons.IH AList.update_conv' Let_def filter_empty_conv image_iff split: option.splits)
qed

lemma collect_needed_distinct:
  "distinct (map fst m) \<Longrightarrow> distinct (map fst (collect_needed chunk m))"
  by (induction chunk arbitrary: m) (simp_all add: Let_def AList.distinct_update)

lemma getPages_ok:
  "list_all (\<lambda>i. i < length (doc_pages d)) indices \<Longrightarrow>
   getPages d indices =
     Inr (map (\<lambda>i. \<lparr>owner_ref = doc_ref d, owner_index = i, box = doc_pages d ! i\<rparr>) indices)"
  by (induction indices) (simp_all add: getPage_def)

lemma embed_needed_ok:
  "distinct (map fst nd) \<Longrightarrow>
   list_all (\<lambda>(d, indices). list_all (\<lambda>i. i < length (doc_pages d)) indices) nd \<Longrightarrow>
   \<exists>em'. embed_needed nd em = Inr em' \<and>
     (\<forall>d. map_of em' d =
        (case map_of nd d of
           Some indices \<Rightarrow>
             Some (map (\<lambda>i. embedPage \<lparr>owner_ref = doc_ref d, owner_index = i,
                                          box = doc_pages d ! i\<rparr>) indices)
         | None \<Rightarrow> map_of em d))"
proof (induction nd arbitrary: em)
  case Nil
  show ?case by simp
next
  case (Cons a nd)
  obtain d0 ix where a: "a = (d0, ix)" by (cases a)
  let ?pages = "map (\<lambda>i. \<lparr>owner_ref = doc_ref d0, owner_index = i, box = doc_pages d0 ! i\<rparr>) ix"
  let ?em0 = "AList.update d0 (embedPages ?pages) em"
  from Cons.prems a have dist: "distinct (map fst nd)" and notin: "d0 \<notin> fst ` set nd"
    and ok0: "list_all (\<lambda>i. i < length (doc_pages d0)) ix"
    and okr: "list_all (\<lambda>(d, indices). list_all (\<lambda>i. i < length (doc_pages d)) indices) nd"
    by auto
  from Cons.IH [OF dist okr, of ?em0]
  obtain em' where e: "embed_needed nd ?em0 = Inr em'"
    and l: "\<And>d. map_of em' d =
        (case map_of nd d of
           Some indices \<Rightarrow>
             Some (map (\<lambda>i. embedPage \<lparr>owner_ref = doc_ref d, owner_index = i,
                                          box = doc_pages d ! i\<rparr>) indices)
         | None \<Rightarrow> map_of ?em0 d)"
    by blast
  have none0: "map_of nd d0 = None"
    using notin by (simp add: map_of_eq_None_iff)
  have "embed_needed (a # nd) em = Inr em'"
    using e by (simp add: a getPages_ok [OF ok0])
  moreover have "\<forall>d. map_of em' d =
        (case map_of (a # nd) d of
           Some indices \<Rightarrow>
             Some (map (\<lambda>i. embedPage \<lparr>owner_ref = doc_ref d, owner_index = i,
                                          box = doc_pages d ! i\<rparr>) indices)
         | None \<Rightarrow> map_of em d)"
    using none0 by (auto simp: l a AList.update_conv' embedPages_def split: option.splits)
  ultimately show ?case by blast
qed

lemma nth_filter_prefix:
  "P x \<Longrightarrow> filter P (pre @ x # rest) ! length (filter P pre) = x"
  by (simp add: nth_append)

lemma place_chunk_ok:
  assumes "\<And>p. p \<in> set (pre @ chunk) \<Longrightarrow>
             map_of em (doc p) = Some (map emb_of (filter (\<lambda>q. doc q = doc p) (pre @ chunk)))"
    and "\<And>d. (case map_of cm d of None \<Rightarrow> 0 | Some n \<Rightarrow> n)
               = length (filter (\<lambda>q. doc q = d) pre)"
  shows "place_chunk options em j chunk cm = Inr (placed options j chunk)"
  using assms
proof (induction chunk arbitrary: pre j cm)
  case Nil
  show ?case by simp
next
  case (Cons p chunk)
  let ?P = "\<lambda>q. doc q = doc p"
  let ?c = "length (filter ?P pre)"
  have consumed: "(case map_of cm (doc p) of None \<Rightarrow> 0 | Some n \<Rightarrow> n) = ?c"
    by (rule Cons.prems(2))
  have emb: "map_of em (doc p) = Some (map emb_of (filter ?P (pre @ p # chunk)))"
    by (rule Cons.prems(1)) simp
  have lt: "?c < length (map emb_of (filter ?P (pre @ p # chunk)))"
    by simp
  have nth: "map emb_of (filter ?P (pre @ p # chunk)) ! ?c = emb_of p"
    by (simp add: nth_append)
  have step: "place_chunk options em (Suc j) chunk (AList.update (doc p) (?c + 1) cm)
                = Inr (placed options (Suc j) chunk)"
  proof (rule Cons.IH [where pre = "pre @ [p]"])
    fix q assume "q \<in> set ((pre @ [p]) @ chunk)"
    then have "q \<in> set (pre @ p # chunk)" by simp
    from Cons.prems(1) [OF this]
    show "map_of em (doc q) = Some (map emb_of (filter (\<lambda>r. doc r = doc q) ((pre @ [p]) @ chunk)))"
      by simp
  next
    fix d
    show "(case map_of (AList.update (doc p) (?c + 1) cm) d of None \<Rightarrow> 0 | Some n \<Rightarrow> n)
            = length (filter (\<lambda>q. doc q = d) (pre @ [p]))"
      using Cons.prems(2) [of d] by (simp add: AList.update_conv')
  qed
  show ?case
    using consumed emb lt nth step by (simp del: length_map length_filter_le filter_append filter.simps)
qed

lemma make_sheet_ok:
  assumes wf: "list_all in_range chunk"
  shows "make_sheet options chunk
           = Inr \<lparr>sheet_size = (sheet_w options, sheet_h options), draws = placed options 0 chunk\<rparr>"
proof -
  let ?nd = "collect_needed chunk []"
  have dist: "distinct (map fst ?nd)"
    by (rule collect_needed_distinct) simp
  have look: "map_of ?nd d =
      (if d \<in> doc ` set chunk then Some (map pageIndex (filter (\<lambda>p. doc p = d) chunk)) else None)" for d
    by (simp add: collect_needed_lookup)
  have ok: "list_all (\<lambda>(d, indices). list_all (\<lambda>i. i < length (doc_pages d)) indices) ?nd"
  proof -
    have "list_all (\<lambda>i. i < length (doc_pages d)) indices" if "(d, indices) \<in> set ?nd" for d indices
    proof -
      from dist that have "map_of ?nd d = Some indices" by simp
      then have "indices = map pageIndex (filter (\<lambda>p. doc p = d) chunk)"
        by (simp add: look split: if_splits)
      then show ?thesis
        using wf by (auto simp: list_all_iff in_range_def)
    qed
    then show ?thesis by (auto simp: list_all_iff)
  qed
  from embed_needed_ok [OF dist ok, of "[]"]
  obtain em where e: "embed_needed ?nd [] = Inr em"
    and l: "\<And>d. map_of em d =
        (case map_of ?nd d of
           Some indices \<Rightarrow>
             Some (map (\<lambda>i. embedPage \<lparr>owner_ref = doc_ref d, owner_index = i,
                                          box = doc_pages d ! i\<rparr>) indices)
         | None \<Rightarrow> map_of [] d)"
    by blast
  have "place_chunk options em 0 chunk [] = Inr (placed options 0 chunk)"
  proof (rule place_chunk_ok [where pre = "[]"])
    fix p assume "p \<in> set ([] @ chunk)"
    then have "doc p \<in> doc ` set chunk" by simp
    then have "map_of em (doc p) = Some (map (\<lambda>i. embedPage \<lparr>owner_ref = doc_ref (doc p), owner_index = i,
                   box = doc_pages (doc p) ! i\<rparr>) (map pageIndex (filter (\<lambda>q. doc q = doc p) chunk)))"
      by (simp add: l look)
    also have "map (\<lambda>i. embedPage \<lparr>owner_ref = doc_ref (doc p), owner_index = i,
                   box = doc_pages (doc p) ! i\<rparr>) (map pageIndex (filter (\<lambda>q. doc q = doc p) chunk))
               = map emb_of (filter (\<lambda>q. doc q = doc p) chunk)"
      by (simp add: emb_of_def)
    finally show "map_of em (doc p) = Some (map emb_of (filter (\<lambda>q. doc q = doc p) ([] @ chunk)))"
      by simp
  next
    fix d :: PDFDocument
    show "(case map_of [] d of None \<Rightarrow> 0 | Some n \<Rightarrow> n) = length (filter (\<lambda>q. doc q = d) [])"
      by simp
  qed
  with e show ?thesis by (simp add: make_sheet_def)
qed

lemma perSheet_pos: "0 < perSheet options"
  by (simp add: perSheet_def cols_def rows_def grid_def)

lemma ceil_step:
  fixes n i c :: nat
  assumes "i < n" "0 < c"
  shows "(n - i + c - 1) div c = Suc ((n - (i + c) + c - 1) div c)"
proof -
  have a: "n - i + c - 1 = (n - i - 1) + c"
    using assms by arith
  have b: "(n - i - 1 + c) div c = Suc ((n - i - 1) div c)"
    using assms(2) div_add_self2 [of c "n - i - 1"] by simp
  have c: "(n - (i + c) + c - 1) div c = (n - i - 1) div c"
  proof (cases "i + c \<le> n")
    case True
    then have "n - (i + c) + c - 1 = n - i - 1" by arith
    then show ?thesis by (simp only:)
  next
    case False
    then have "n - (i + c) + c - 1 = c - 1" and "n - i - 1 < c" and "c - 1 < c"
      using assms by arith+
    then show ?thesis by (simp only: div_less)
  qed
  show ?thesis
    by (simp only: a b c)
qed

lemma sheet_loop_ok:
  "list_all in_range allPages \<Longrightarrow>
   \<exists>out. sheet_loop options allPages i = Inr out
       \<and> length out = (length allPages - i + perSheet options - 1) div perSheet options
       \<and> (\<forall>k<length out. out ! k =
             \<lparr>sheet_size = (sheet_w options, sheet_h options),
              draws = placed options 0
                 (take (perSheet options) (drop (i + k * perSheet options) allPages))\<rparr>)"
proof (induction options allPages i rule: sheet_loop.induct)
  case (1 options allPages i)
  let ?C = "perSheet options"
  show ?case
  proof (cases "i < length allPages")
    case False
    then have "sheet_loop options allPages i = Inr []"
      by (subst sheet_loop.simps) simp
    moreover have "(length allPages - i + ?C - 1) div ?C = 0"
      using False perSheet_pos [of options] by simp
    ultimately show ?thesis by simp
  next
    case True
    let ?chunk = "take ?C (drop i allPages)"
    let ?s = "\<lparr>sheet_size = (sheet_w options, sheet_h options), draws = placed options 0 ?chunk\<rparr>"
    have "list_all in_range ?chunk"
      using "1.prems" by (auto simp: list_all_iff dest: in_set_takeD in_set_dropD)
    then have ms: "make_sheet options ?chunk = Inr ?s"
      by (rule make_sheet_ok)
    from "1.IH" [OF True refl ms "1.prems"]
    obtain out where all: "sheet_loop options allPages (i + ?C) = Inr out
       \<and> length out = (length allPages - (i + ?C) + ?C - 1) div ?C
       \<and> (\<forall>k<length out. out ! k =
             \<lparr>sheet_size = (sheet_w options, sheet_h options),
              draws = placed options 0 (take ?C (drop (i + ?C + k * ?C) allPages))\<rparr>)" ..
    from all have o: "sheet_loop options allPages (i + ?C) = Inr out" by (rule conjunct1)
    from all have len: "length out = (length allPages - (i + ?C) + ?C - 1) div ?C"
      by (elim conjE)
    from all have nth: "\<And>k. k < length out \<Longrightarrow> out ! k =
             \<lparr>sheet_size = (sheet_w options, sheet_h options),
              draws = placed options 0 (take ?C (drop (i + ?C + k * ?C) allPages))\<rparr>"
      by blast
    have eq: "sheet_loop options allPages i = Inr (?s # out)"
      using True ms o by (subst sheet_loop.simps) simp
    have len': "length (?s # out) = (length allPages - i + ?C - 1) div ?C"
      using len ceil_step [OF True perSheet_pos [of options]] by simp
    have nth': "(?s # out) ! k =
             \<lparr>sheet_size = (sheet_w options, sheet_h options),
              draws = placed options 0 (take ?C (drop (i + k * ?C) allPages))\<rparr>"
      if "k < length (?s # out)" for k
    proof (cases k)
      case 0
      then show ?thesis by simp
    next
      case (Suc k')
      with that have "k' < length out" by simp
      from nth [OF this] show ?thesis
        by (simp add: Suc add.assoc)
    qed
    from eq len' nth' show ?thesis by blast
  qed
qed

lemma accepted_iff:
  "accepted load file \<longleftrightarrow> isProbablyPdf (data file) \<and> parsed load file \<noteq> []"
  by (auto simp: accepted_def check_file_def parsed_def Let_def split: sum.splits)

lemma check_file_accepted:
  "accepted load file \<Longrightarrow> check_file load k file = Inr (document_refs load k file)"
  by (auto simp: accepted_def document_refs_def check_file_def parsed_def Let_def split: sum.splits if_splits)

lemma check_file_rejected:
  "\<not> accepted load file \<Longrightarrow> \<exists>b. check_file load k file = Inl b \<and> rejection load file = [b]"
  by (auto simp: accepted_def rejection_def check_file_def parsed_def Let_def split: sum.splits if_splits)

lemma rejection_accepted: "accepted load file \<Longrightarrow> rejection load file = []"
  by (auto simp: accepted_def rejection_def split: sum.splits)

lemma document_refs_rejected: "\<not> accepted load file \<Longrightarrow> document_refs load k file = []"
  by (simp add: document_refs_def)

lemma load_files_eq:
  "load_files load k files (allPages, bad) =
     (allPages @ concat (map (\<lambda>(i, f). document_refs load i f) (enumerate k files)),
      bad @ concat (map (rejection load) files))"
proof (induction files arbitrary: k allPages bad)
  case Nil
  show ?case by simp
next
  case (Cons f files)
  show ?case
  proof (cases "accepted load f")
    case True
    then show ?thesis
      by (simp add: check_file_accepted rejection_accepted Cons.IH)
  next
    case False
    from check_file_rejected [OF False, of k] obtain b
      where "check_file load k f = Inl b" "rejection load f = [b]" by blast
    then show ?thesis
      using False by (simp add: document_refs_rejected Cons.IH)
  qed
qed

lemma flatten_eq:
  "flatten load files = concat (map (\<lambda>(i, f). document_refs load i f) (enumerate 0 files))"
  by (simp add: flatten_def load_files_eq)

lemma rejected_eq: "rejected load files = concat (map (rejection load) files)"
  by (simp add: rejected_def load_files_eq)

lemma document_refs_in_range: "list_all in_range (document_refs load k f)"
  by (auto simp: document_refs_def list_all_iff in_range_def)

lemma flatten_in_range: "list_all in_range (flatten load files)"
proof -
  have "in_range p" if "p \<in> set (document_refs load k f)" for p k f
    using document_refs_in_range [of load k f] that by (simp add: list_all_iff)
  then show ?thesis
    by (auto simp: flatten_eq list_all_iff)
qed

lemma load_files_split:
  "load_files load 0 files ([], []) = (flatten load files, rejected load files)"
  by (simp add: flatten_def rejected_def)

lemma impose8up_failure:
  "flatten load files = [] \<Longrightarrow>
   impose8up load save files options =
     Inr \<lparr>success = False, pdfBytes = None, total_pages = None, sheets = None,
          bad_files = take 50 (rejected load files), total_bad = length (rejected load files),
          error_message = Some no_valid_pdf\<rparr>"
  by (simp add: impose8up_def load_files_split)

lemma impose8up_success:
  assumes "flatten load files \<noteq> []"
  shows "\<exists>out. out_document load files options = Inr out \<and>
     impose8up load save files options =
       Inr \<lparr>success = True, pdfBytes = Some (save out),
            total_pages = Some (length (flatten load files)), sheets = Some (length out),
            bad_files = take 50 (rejected load files), total_bad = length (rejected load files),
            error_message = None\<rparr>"
proof -
  from sheet_loop_ok [OF flatten_in_range [of load files], where options = options and i = 0]
  obtain out where "sheet_loop options (flatten load files) 0 = Inr out" by blast
  then show ?thesis
    using assms by (simp add: impose8up_def load_files_split out_document_def)
qed

lemma length_rejection: "length (rejection load f) = (if accepted load f then 0 else 1)"
  by (auto simp: rejection_def accepted_def split: sum.splits)

lemma length_rejected:
  "length (rejected load files) = length (filter (\<lambda>f. \<not> accepted load f) files)"
  by (induction files) (simp_all add: rejected_eq length_rejection)

lemma refs_empty_iff:
  "concat (map (\<lambda>(i, f). document_refs load i f) (enumerate k files)) = []
     \<longleftrightarrow> list_all (\<lambda>f. \<not> accepted load f) files"
proof (induction files arbitrary: k)
  case Nil
  show ?case by simp
next
  case (Cons f files)
  have "document_refs load k f = [] \<longleftrightarrow> \<not> accepted load f"
    by (auto simp: document_refs_def accepted_iff)
  then show ?case
    by (simp add: Cons.IH del: concat_eq_Nil_conv)
qed

lemma flatten_empty_iff:
  "flatten load files = [] \<longleftrightarrow> list_all (\<lambda>f. \<not> accepted load f) files"
  by (simp add: flatten_eq refs_empty_iff del: concat_eq_Nil_conv)

lemma sample_accepted:
  "accepted sample_load \<lparr>name = n, data = sample_pdf k\<rparr> \<longleftrightarrow> 2 \<le> k"
  by (auto simp: accepted_iff isProbablyPdf_def sample_pdf_def pdf_header_def parsed_def sample_load_def)

lemma sample_not_accepted: "\<not> accepted sample_load \<lparr>name = n, data = []\<rparr>"
  by (simp add: accepted_iff isProbablyPdf_def)

lemma text_file_rejected: "\<not> accepted load text_file"
  by (simp add: accepted_iff isProbablyPdf_def text_file_def)

lemma placed_length: "length (placed options j chunk) = length chunk"
  by (induction chunk arbitrary: j) simp_all

lemma placed_nth:
  "n < length chunk \<Longrightarrow> placed options j chunk ! n = place options (j + n) (emb_of (chunk ! n))"
proof (induction chunk arbitrary: j n)
  case Nil
  then show ?case by simp
next
  case (Cons p chunk)
  show ?case
  proof (cases n)
    case 0
    then show ?thesis by simp
  next
    case (Suc m)
    with Cons.prems have "m < length chunk" by simp
    from Cons.IH [OF this, of "Suc j"] show ?thesis
      by (simp add: Suc)
  qed
qed

lemma drawn_page_place: "drawn_page (place options j e) = e"
  by (simp add: place_def Let_def)

lemma out_document_ok:
  "\<exists>out. out_document load files options = Inr out
     \<and> length out = (length (flatten load files) + perSheet options - 1) div perSheet options
     \<and> (\<forall>k<length out. out ! k =
           \<lparr>sheet_size = (sheet_w options, sheet_h options),
            draws = placed options 0
               (take (perSheet options) (drop (k * perSheet options) (flatten load files)))\<rparr>)"
  using sheet_loop_ok [OF flatten_in_range [of load files], where options = options and i = 0]
  by (simp add: out_document_def)

lemma div_less_sheet_count:
  fixes g n c :: nat
  assumes "g < n" "0 < c"
  shows "g div c < (n + c - 1) div c"
proof -
  have "g div c * c \<le> g" by simp
  with assms have "g div c * c + c \<le> n + c - 1"
    by linarith
  moreover have "(g div c + 1) * c = g div c * c + c"
    by (simp add: algebra_simps)
  ultimately have "(g div c + 1) * c \<le> n + c - 1"
    by (simp only:)
  then have "g div c + 1 \<le> (n + c - 1) div c"
    using assms(2) by (simp only: less_eq_div_iff_mult_less_eq)
  then show ?thesis by simp
qed

lemma chunk_nth:
  fixes g c :: nat
  assumes "g < length ps" "0 < c"
  shows "g mod c < length (take c (drop (g div c * c) ps))"
    and "take c (drop (g div c * c) ps) ! (g mod c) = ps ! g"
proof -
  have g: "g div c * c + g mod c = g" by simp
  then have "g mod c < length ps - g div c * c"
    using assms(1) by linarith
  then show 1: "g mod c < length (take c (drop (g div c * c) ps))"
    using assms(2) by simp
  have "take c (drop (g div c * c) ps) ! (g mod c) = drop (g div c * c) ps ! (g mod c)"
    using assms(2) by simp
  also have "\<dots> = ps ! (g div c * c + g mod c)"
    using assms(1) g by (intro nth_drop) linarith
  finally show "take c (drop (g div c * c) ps) ! (g mod c) = ps ! g"
    by (simp only: g)
qed

lemma drawn_at:
  assumes "g < length (flatten load files)"
  shows "\<exists>out. out_document load files options = Inr out
     \<and> g div perSheet options < length out
     \<and> g mod perSheet options < length (draws (out ! (g div perSheet options)))
     \<and> draws (out ! (g div perSheet options)) ! (g mod perSheet options)
         = place options (g mod perSheet options) (emb_of (flatten load files ! g))"
proof -
  let ?C = "perSheet options" and ?ps = "flatten load files"
  from out_document_ok [of load files options]
  obtain out where o: "out_document load files options = Inr out"
    and len: "length out = (length ?ps + ?C - 1) div ?C"
    and nth: "\<And>k. k < length out \<Longrightarrow> out ! k =
           \<lparr>sheet_size = (sheet_w options, sheet_h options),
            draws = placed options 0 (take ?C (drop (k * ?C) ?ps))\<rparr>"
    by blast
  have k: "g div ?C < length out"
    using div_less_sheet_count [OF assms perSheet_pos [of options]] len by simp
  have d: "draws (out ! (g div ?C)) = placed options 0 (take ?C (drop (g div ?C * ?C) ?ps))"
    by (simp add: nth [OF k])
  note c = chunk_nth [OF assms perSheet_pos [of options]]
  have "g mod ?C < length (draws (out ! (g div ?C)))"
    using c(1) by (simp only: d placed_length)
  moreover have "draws (out ! (g div ?C)) ! (g mod ?C) = place options (g mod ?C) (emb_of (?ps ! g))"
    using placed_nth [OF c(1), of options 0] c(2) by (simp only: d) simp
  ultimately show ?thesis
    using o k by blast
qed

lemma flatten_member:
  assumes "p \<in> set (flatten load files)"
  shows "doc_ref (doc p) < length files \<and> accepted load (files ! doc_ref (doc p))
     \<and> doc_pages (doc p) = parsed load (files ! doc_ref (doc p))
     \<and> pageIndex p < length (doc_pages (doc p))"
proof -
  from assms obtain k f where kf: "(k, f) \<in> set (enumerate 0 files)"
    and p: "p \<in> set (document_refs load k f)"
    by (auto simp: flatten_eq)
  from kf have "k < length files" "files ! k = f"
    by (simp_all add: in_set_enumerate_eq)
  with p show ?thesis
    by (auto simp: document_refs_def split: if_splits)
qed



lemma sample_parsed:
  "parsed sample_load \<lparr>name = n, data = sample_pdf k\<rparr>
     = replicate (k - 1) \<lparr>page_width = 595, page_height = 842\<rparr>"
  by (simp add: parsed_def sample_load_def sample_pdf_def pdf_header_def)

lemma sample_flatten:
  "flatten sample_load sample_files =
     \<lparr>doc = \<lparr>doc_ref = 0, doc_pages = replicate 1 \<lparr>page_width = 595, page_height = 842\<rparr>\<rparr>,
      pageIndex = 0\<rparr>
     # map (\<lambda>i. \<lparr>doc = \<lparr>doc_ref = 2,
                           doc_pages = replicate 9 \<lparr>page_width = 595, page_height = 842\<rparr>\<rparr>,
                    pageIndex = i\<rparr>) [0..<9]"
  by (simp add: flatten_eq sample_files_def document_refs_def sample_accepted sample_parsed
        sample_not_accepted)

lemma sample_perSheet: "perSheet sample_options = 8"
  by (simp add: perSheet_def cols_def rows_def grid_def sample_options_def)

lemma refs_sorted:
  "sorted (map (\<lambda>p. doc_ref (doc p))
             (concat (map (\<lambda>(i, f). document_refs load i f) (enumerate k files))))
   \<and> (\<forall>p \<in> set (concat (map (\<lambda>(i, f). document_refs load i f) (enumerate k files))).
         k \<le> doc_ref (doc p))"
proof (induction files arbitrary: k)
  case Nil
  show ?case by simp
next
  case (Cons f files)
  have here: "doc_ref (doc p) = k" if "p \<in> set (document_refs load k f)" for p
    using that by (auto simp: document_refs_def split: if_splits)
  then have s: "sorted (map (\<lambda>p. doc_ref (doc p)) (document_refs load k f))"
    by (simp add: sorted_wrt_iff_nth_less sorted_wrt_map)
  define R where "R = concat (map (\<lambda>(i, f). document_refs load i f) (enumerate (Suc k) files))"
  from Cons.IH [of "Suc k"] have r1: "sorted (map (\<lambda>p. doc_ref (doc p)) R)"
    and r2: "\<And>p. p \<in> set R \<Longrightarrow> Suc k \<le> doc_ref (doc p)"
    unfolding R_def by blast+
  have e: "concat (map (\<lambda>(i, f). document_refs load i f) (enumerate k (f # files)))
             = document_refs load k f @ R"
    by (simp add: R_def)
  have "sorted (map (\<lambda>p. doc_ref (doc p)) (document_refs load k f @ R))"
    using s r1 here r2 by (fastforce simp: sorted_append)
  moreover have "\<forall>p \<in> set (document_refs load k f @ R). k \<le> doc_ref (doc p)"
    using here r2 by fastforce
  ultimately show ?case
    unfolding e by blast
qed

lemma flatten_sorted: "sorted (map (\<lambda>p. doc_ref (doc p)) (flatten load files))"
  using refs_sorted [of load 0 files] by (simp add: flatten_eq)

lemma flatten_ref_order:
  assumes "g1 < length (flatten load files)" "g2 < length (flatten load files)"
    and "doc_ref (doc (flatten load files ! g1)) < doc_ref (doc (flatten load files ! g2))"
  shows "g1 < g2"
proof (rule ccontr)
  assume "\<not> g1 < g2"
  then have "g2 \<le> g1" by simp
  from sorted_nth_mono [OF flatten_sorted this, of load files] assms(1)
  have "doc_ref (doc (flatten load files ! g2)) \<le> doc_ref (doc (flatten load files ! g1))"
    using assms(2) by simp
  with assms(3) show False by simp
qed

lemma position_order:
  fixes g1 g2 c :: nat
  assumes "g1 < g2"
  shows "g1 div c < g2 div c \<or> (g1 div c = g2 div c \<and> g1 mod c < g2 mod c)"
proof (cases "g1 div c < g2 div c")
  case True
  then show ?thesis by simp
next
  case False
  moreover have "g1 div c \<le> g2 div c"
    using assms by (simp add: div_le_mono)
  ultimately have e: "g1 div c = g2 div c" by simp
  have "g1 = c * (g1 div c) + g1 mod c" "g2 = c * (g2 div c) + g2 mod c"
    by simp_all
  with assms e have "g1 mod c < g2 mod c"
    by (metis add_less_cancel_left)
  with e show ?thesis by simp
qed

lemma placed_pages: "map drawn_page (placed options j chunk) = map emb_of chunk"
  by (induction chunk arbitrary: j) (simp_all add: drawn_page_place)

lemma sheet_loop_pages:
  "list_all in_range allPages \<Longrightarrow> sheet_loop options allPages i = Inr out \<Longrightarrow>
   concat (map (\<lambda>s. map drawn_page (draws s)) out) = map emb_of (drop i allPages)"
proof (induction options allPages i arbitrary: out rule: sheet_loop.induct)
  case (1 options allPages i)
  let ?C = "perSheet options"
  show ?case
  proof (cases "i < length allPages")
    case False
    with "1.prems"(2) have "out = []"
      by (subst (asm) sheet_loop.simps) simp
    with False show ?thesis by simp
  next
    case True
    let ?chunk = "take ?C (drop i allPages)"
    let ?s = "\<lparr>sheet_size = (sheet_w options, sheet_h options), draws = placed options 0 ?chunk\<rparr>"
    have "list_all in_range ?chunk"
      using "1.prems"(1) by (auto simp: list_all_iff dest: in_set_takeD in_set_dropD)
    then have ms: "make_sheet options ?chunk = Inr ?s"
      by (rule make_sheet_ok)
    from "1.prems"(2) True ms obtain rest where
      r: "sheet_loop options allPages (i + ?C) = Inr rest" and o: "out = ?s # rest"
      by (subst (asm) sheet_loop.simps) (auto split: sum.splits)
    from "1.IH" [OF True refl ms "1.prems"(1) r]
    have "concat (map (\<lambda>s. map drawn_page (draws s)) rest) = map emb_of (drop (i + ?C) allPages)" .
    moreover have "drop (i + ?C) allPages = drop ?C (drop i allPages)"
      by (simp add: add.commute)
    ultimately have "concat (map (\<lambda>s. map drawn_page (draws s)) out)
        = map emb_of ?chunk @ map emb_of (drop ?C (drop i allPages))"
      by (simp add: o placed_pages)
    also have "\<dots> = map emb_of (?chunk @ drop ?C (drop i allPages))"
      by simp
    also have "?chunk @ drop ?C (drop i allPages) = drop i allPages"
      by (rule append_take_drop_id)
    finally show ?thesis .
  qed
qed

lemma length_document_refs:
  "length (document_refs load k f) = (if accepted load f then length (parsed load f) else 0)"
  by (simp add: document_refs_def)

lemma length_refs:
  "length (concat (map (\<lambda>(i, f). document_refs load i f) (enumerate k files)))
     = sum_list (map (\<lambda>f. if accepted load f then length (parsed load f) else 0) files)"
  by (induction files arbitrary: k) (simp_all add: length_document_refs)

lemma sources_from:
  "map (source_of (pre @ files))
       (concat (map (\<lambda>(i, f). document_refs load i f) (enumerate (length pre) files)))
     = concat (map (file_pages load) files)"
proof (induction files arbitrary: pre)
  case Nil
  show ?case by simp
next
  case (Cons f files)
  have here: "map (source_of (pre @ f # files)) (document_refs load (length pre) f)
                = file_pages load f"
    by (simp add: document_refs_def file_pages_def source_of_def)
  from Cons.IH [of "pre @ [f]"]
  have rest: "map (source_of (pre @ f # files))
       (concat (map (\<lambda>(i, f). document_refs load i f) (enumerate (Suc (length pre)) files)))
     = concat (map (file_pages load) files)"
    by simp
  show ?case
    by (simp add: here rest del: map_concat)
qed

lemma flatten_sources:
  "map (source_of files) (flatten load files) = concat (map (file_pages load) files)"
  using sources_from [of "[]" files load] by (simp add: flatten_eq)

lemma file_pages_filter:
  "concat (map (file_pages load) (filter (accepted load) files))
     = concat (map (file_pages load) files)"
  by (induction files) (simp_all add: file_pages_def)

lemma placement_eq:
  assumes "source_of files' p' = source_of files p" "doc_pages (doc p') = doc_pages (doc p)"
  shows "placement_of files' (place options j (emb_of p'))
           = placement_of files (place options j (emb_of p))"
  using assms by (simp add: placement_of_def place_def emb_of_def embedPage_def source_of_def Let_def)

lemma placed_eq:
  assumes "list_all2 (\<lambda>p' p. source_of files' p' = source_of files p
                        \<and> doc_pages (doc p') = doc_pages (doc p)) chunk' chunk"
  shows "map (placement_of files') (placed options j chunk')
           = map (placement_of files) (placed options j chunk)"
  using assms
proof (induction chunk' chunk arbitrary: j rule: list_all2_induct)
  case Nil
  show ?case by simp
next
  case (Cons p' chunk' p chunk)
  from Cons.hyps(1) have "placement_of files' (place options j (emb_of p'))
           = placement_of files (place options j (emb_of p))"
    by (intro placement_eq) simp_all
  with Cons.IH [of "Suc j"] show ?case by simp
qed

lemma flatten_related:
  "list_all2 (\<lambda>p' p. source_of (filter (accepted load) files) p' = source_of files p
                  \<and> doc_pages (doc p') = doc_pages (doc p))
     (flatten load (filter (accepted load) files)) (flatten load files)"
proof -
  let ?fs = "filter (accepted load) files"
  let ?ps' = "flatten load ?fs" and ?ps = "flatten load files"
  have eq: "map (source_of ?fs) ?ps' = map (source_of files) ?ps"
    by (simp only: flatten_sources file_pages_filter)
  then have len: "length ?ps' = length ?ps"
    by (rule map_eq_imp_length_eq)
  have "source_of ?fs (?ps' ! g) = source_of files (?ps ! g)
          \<and> doc_pages (doc (?ps' ! g)) = doc_pages (doc (?ps ! g))" if g: "g < length ?ps'" for g
  proof -
    from g len have g2: "g < length ?ps" by simp
    have "map (source_of ?fs) ?ps' ! g = map (source_of files) ?ps ! g"
      by (simp only: eq)
    then have src: "source_of ?fs (?ps' ! g) = source_of files (?ps ! g)"
      using g g2 by simp
    from g have "?ps' ! g \<in> set ?ps'" by simp
    from flatten_member [OF this]
    have a: "doc_pages (doc (?ps' ! g)) = parsed load (?fs ! doc_ref (doc (?ps' ! g)))" by blast
    from g2 have "?ps ! g \<in> set ?ps" by simp
    from flatten_member [OF this]
    have b: "doc_pages (doc (?ps ! g)) = parsed load (files ! doc_ref (doc (?ps ! g)))" by blast
    from src have "?fs ! doc_ref (doc (?ps' ! g)) = files ! doc_ref (doc (?ps ! g))"
      by (simp add: source_of_def)
    with a b src show ?thesis by simp
  qed
  with len show ?thesis
    by (simp add: list_all2_conv_all_nth)
qed

lemma sample_filter:
  "filter (accepted sample_load) sample_files
     = [\<lparr>name = ''a.pdf'', data = sample_pdf 2\<rparr>, \<lparr>name = ''b.pdf'', data = sample_pdf 10\<rparr>]"
  by (simp add: sample_files_def sample_accepted sample_not_accepted)

lemma grid_cases:
  "(cols options = 4 \<and> rows options = 2) \<or> (cols options = 2 \<and> rows options = 4)"
  by (simp add: cols_def rows_def grid_def)

lemma sheet_h_lower: "595 \<le> sheet_h options"
  by (cases "paper options"; cases "orientation options") (simp_all add: sheet_h_def sheet_wh_def)

lemma sheet_w_lower: "595 \<le> sheet_w options"
  by (cases "paper options"; cases "orientation options") (simp_all add: sheet_w_def sheet_wh_def)

lemma margin_upper:
  assumes "margin_mm options \<le> 50"
  shows "2 * margin options \<le> 284"
proof -
  have "margin options \<le> 50 * (72 / 25.4)"
    unfolding margin_def MM_TO_PT_def using assms by (intro mult_right_mono) simp_all
  then show ?thesis by simp
qed

lemma row_pitch_pos:
  assumes "margin_mm options \<le> 50" "0 \<le> gap_mm options"
  shows "0 < cellH options + gap options"
proof -
  have g: "0 \<le> gap options"
    using assms(2) by (simp add: gap_def MM_TO_PT_def)
  note m = margin_upper [OF assms(1)] and h = sheet_h_lower [of options]
  from grid_cases [of options] show ?thesis
  proof
    assume "cols options = 4 \<and> rows options = 2"
    then have "cellH options + gap options = (sheet_h options - 2 * margin options + gap options) / 2"
      by (simp add: cellH_def field_simps)
    with g m h show ?thesis by simp
  next
    assume "cols options = 2 \<and> rows options = 4"
    then have "cellH options + gap options = (sheet_h options - 2 * margin options + gap options) / 4"
      by (simp add: cellH_def field_simps)
    with g m h show ?thesis by simp
  qed
qed

lemma cell_xy:
  assumes "c < cols options"
  shows "cell_x options (r * cols options + c) = margin options + real c * (cellW options + gap options)"
    and "cell_y options (r * cols options + c)
           = sheet_h options - margin options - (real r + 1) * cellH options - real r * gap options"
  using assms by (simp_all add: cell_x_def cell_y_def)

lemma sheet_sizes:
  "list_all in_range allPages \<Longrightarrow> sheet_loop options allPages i = Inr out \<Longrightarrow>
   list_all (\<lambda>s. sheet_size s = (sheet_w options, sheet_h options)) out"
proof -
  assume wf: "list_all in_range allPages" and o: "sheet_loop options allPages i = Inr out"
  from sheet_loop_ok [OF wf, of options i] o
  have "\<forall>k<length out. out ! k =
             \<lparr>sheet_size = (sheet_w options, sheet_h options),
              draws = placed options 0
                 (take (perSheet options) (drop (i + k * perSheet options) allPages))\<rparr>"
    by simp
  then have "\<forall>k<length out. sheet_size (out ! k) = (sheet_w options, sheet_h options)"
    by simp
  then show ?thesis
    by (simp add: list_all_length)
qed



lemma header_bytes:
  assumes "5 \<le> length buffer"
  shows "take 5 buffer = pdf_header \<longleftrightarrow>
     buffer ! 0 = 0x25 \<and> buffer ! 1 = 0x50 \<and> buffer ! 2 = 0x44 \<and> buffer ! 3 = 0x46
       \<and> buffer ! 4 = 0x2d"
proof -
  from assms have "Suc (Suc (Suc (Suc (Suc 0)))) \<le> length buffer" by simp
  then obtain b0 b1 b2 b3 b4 rest where "buffer = b0 # b1 # b2 # b3 # b4 # rest"
    by (auto simp: Suc_le_length_iff)
  then show ?thesis
    by (simp add: pdf_header_def)
qed

lemma isProbablyPdf_iff:
  "isProbablyPdf buffer \<longleftrightarrow> \<not> (length buffer < 1024 \<or> take 5 buffer \<noteq> pdf_header)"
proof (cases "length buffer < 1024")
  case True
  then show ?thesis by (simp add: isProbablyPdf_def)
next
  case False
  then have "5 \<le> length buffer" by simp
  from header_bytes [OF this] False show ?thesis
    by (auto simp: isProbablyPdf_def)
qed

lemma sample_pdf_header: "length (sample_pdf n) = 1024 + n" "take 5 (sample_pdf n) = pdf_header"
  by (simp_all add: sample_pdf_def pdf_header_def)





section \<open>Properties of the engine\<close>

text \<open>
  Claim C1 (per-document page consumption). Let the flattened page reference at global
  position \<open>g\<close> refer to page \<open>i\<close> of the document opened for input number \<open>D\<close>. The
  assembling loops never fail; sheet \<open>g div C\<close> exists and has a cell \<open>g mod C\<close>, with
  \<open>C = cols * rows\<close>; what is drawn there is the placement, in cell \<open>g mod C\<close>, of the
  embedded form of that very page: the embedded page comes from page \<open>i\<close> of document
  \<open>D\<close>, which is page \<open>i\<close> of what the parser found in input \<open>D\<close>. This holds whether the
  document gives one page or many to a sheet, and on every sheet it reaches.
\<close>

theorem page_consumption:
  assumes "g < length (flatten load inputFiles)"
  shows "\<exists>out. out_document load inputFiles options = Inr out
     \<and> g div perSheet options < length out
     \<and> g mod perSheet options < length (draws (out ! (g div perSheet options)))
     \<and> draws (out ! (g div perSheet options)) ! (g mod perSheet options)
         = place options (g mod perSheet options) (emb_of (flatten load inputFiles ! g))
     \<and> embedded_from (drawn_page (draws (out ! (g div perSheet options)) ! (g mod perSheet options)))
         = \<lparr>owner_ref = doc_ref (doc (flatten load inputFiles ! g)),
            owner_index = pageIndex (flatten load inputFiles ! g),
            box = parsed load (inputFiles ! doc_ref (doc (flatten load inputFiles ! g)))
                    ! pageIndex (flatten load inputFiles ! g)\<rparr>
     \<and> doc_ref (doc (flatten load inputFiles ! g)) < length inputFiles
     \<and> pageIndex (flatten load inputFiles ! g)
         < length (parsed load (inputFiles ! doc_ref (doc (flatten load inputFiles ! g))))"
proof -
  let ?p = "flatten load inputFiles ! g"
  from assms have "?p \<in> set (flatten load inputFiles)" by simp
  note fm = flatten_member [OF this]
  from fm have m1: "doc_ref (doc ?p) < length inputFiles" by blast
  from fm have m2: "doc_pages (doc ?p) = parsed load (inputFiles ! doc_ref (doc ?p))" by blast
  from fm have m3: "pageIndex ?p < length (doc_pages (doc ?p))" by blast
  from drawn_at [OF assms, of options] obtain out
    where o: "out_document load inputFiles options = Inr out"
      "g div perSheet options < length out"
      "g mod perSheet options < length (draws (out ! (g div perSheet options)))"
      "draws (out ! (g div perSheet options)) ! (g mod perSheet options)
         = place options (g mod perSheet options) (emb_of ?p)"
    by blast
  have "embedded_from (drawn_page (place options (g mod perSheet options) (emb_of ?p)))
         = \<lparr>owner_ref = doc_ref (doc ?p), owner_index = pageIndex ?p,
            box = parsed load (inputFiles ! doc_ref (doc ?p)) ! pageIndex ?p\<rparr>"
    by (simp add: drawn_page_place emb_of_def embedPage_def m2)
  moreover from m3 have "pageIndex ?p < length (parsed load (inputFiles ! doc_ref (doc ?p)))"
    by (simp only: m2)
  ultimately show ?thesis
    using o m1 by auto
qed

theorem page_consumption_witness:
  "9 < length (flatten sample_load sample_files)
   \<and> (\<exists>out. out_document sample_load sample_files sample_options = Inr out
          \<and> 1 < length out \<and> 1 < length (draws (out ! 1))
          \<and> embedded_from (drawn_page (draws (out ! 1) ! 1))
              = \<lparr>owner_ref = 2, owner_index = 8,
                 box = \<lparr>page_width = 595, page_height = 842\<rparr>\<rparr>)"
proof -
  have h: "9 < length (flatten sample_load sample_files)"
    by (simp add: sample_flatten)
  have p: "flatten sample_load sample_files ! 9 =
     \<lparr>doc = \<lparr>doc_ref = 2, doc_pages = replicate 9 \<lparr>page_width = 595, page_height = 842\<rparr>\<rparr>,
      pageIndex = 8\<rparr>"
    by (simp add: sample_flatten)
  have f: "sample_files ! 2 = \<lparr>name = ''b.pdf'', data = sample_pdf 10\<rparr>"
    by (simp add: sample_files_def)
  from page_consumption [OF h, of sample_options] h show ?thesis
    by (auto simp: sample_perSheet p f sample_parsed)
qed



text \<open>
  Claim C3 (geometry). For a valid configuration (margin and gap between 0 and 50 mm,
  turned into points by the factor 72 / 25.4), the sheet has the canonical axis lengths of
  its paper kind, swapped in landscape, and every sheet of the output document has that
  size. On each axis the cell length is
  \<open>(sheet length - 2 * margin - (cells on the axis - 1) * gap) / cells on the axis\<close>. The
  cell of row \<open>r\<close> and column \<open>c\<close>, which is cell \<open>r * cols + c\<close> in row-major order, has
  \<open>x = margin + c * (cellW + gap)\<close> and, the origin being at the bottom left,
  \<open>y = sheet height - margin - (r + 1) * cellH - r * gap\<close>. Rows go downwards: the top edge of
  a row lies at or below the bottom edge of every row of smaller index, so row 0 is the
  topmost.
\<close>

theorem geometry:
  assumes "0 \<le> margin_mm options" "margin_mm options \<le> 50"
    and "0 \<le> gap_mm options" "gap_mm options \<le> 50"
    and "r < rows options" "c < cols options"
  shows "(sheet_w options, sheet_h options)
           = (case (paper options, orientation options) of
                (A4, portrait) \<Rightarrow> (595, 842) | (A4, landscape) \<Rightarrow> (842, 595)
              | (A3, portrait) \<Rightarrow> (842, 1191) | (A3, landscape) \<Rightarrow> (1191, 842))
     \<and> (\<exists>out. out_document load inputFiles options = Inr out
            \<and> list_all (\<lambda>s. sheet_size s = (sheet_w options, sheet_h options)) out)
     \<and> margin options = margin_mm options * 72 / 25.4
     \<and> gap options = gap_mm options * 72 / 25.4
     \<and> (cols options, rows options) = (case layout options of L4x2 \<Rightarrow> (4, 2) | L2x4 \<Rightarrow> (2, 4))
     \<and> cellW options
         = (sheet_w options - 2 * margin options - real (cols options - 1) * gap options)
             / real (cols options)
     \<and> cellH options
         = (sheet_h options - 2 * margin options - real (rows options - 1) * gap options)
             / real (rows options)
     \<and> cell_x options (r * cols options + c)
         = margin options + real c * (cellW options + gap options)
     \<and> cell_y options (r * cols options + c)
         = sheet_h options - margin options - real (r + 1) * cellH options - real r * gap options
     \<and> (\<forall>r' c'. r' < r \<and> c' < cols options \<longrightarrow>
           cell_y options (r * cols options + c) + cellH options
             \<le> cell_y options (r' * cols options + c'))"
proof (intro conjI allI impI)
  show "(sheet_w options, sheet_h options)
           = (case (paper options, orientation options) of
                (A4, portrait) \<Rightarrow> (595, 842) | (A4, landscape) \<Rightarrow> (842, 595)
              | (A3, portrait) \<Rightarrow> (842, 1191) | (A3, landscape) \<Rightarrow> (1191, 842))"
    by (cases "paper options"; cases "orientation options")
       (simp_all add: sheet_w_def sheet_h_def sheet_wh_def)
  show "\<exists>out. out_document load inputFiles options = Inr out
            \<and> list_all (\<lambda>s. sheet_size s = (sheet_w options, sheet_h options)) out"
  proof -
    from out_document_ok [of load inputFiles options]
    obtain out where o: "out_document load inputFiles options = Inr out" by blast
    then have "sheet_loop options (flatten load inputFiles) 0 = Inr out"
      by (simp add: out_document_def)
    from sheet_sizes [OF flatten_in_range this] o show ?thesis by blast
  qed
  show "margin options = margin_mm options * 72 / 25.4"
    by (simp add: margin_def MM_TO_PT_def)
  show "gap options = gap_mm options * 72 / 25.4"
    by (simp add: gap_def MM_TO_PT_def)
  show "(cols options, rows options) = (case layout options of L4x2 \<Rightarrow> (4, 2) | L2x4 \<Rightarrow> (2, 4))"
    by (cases "layout options") (simp_all add: cols_def rows_def grid_def)
  show "cellW options
         = (sheet_w options - 2 * margin options - real (cols options - 1) * gap options)
             / real (cols options)"
    using grid_cases [of options] by (auto simp: cellW_def)
  show "cellH options
         = (sheet_h options - 2 * margin options - real (rows options - 1) * gap options)
             / real (rows options)"
    using grid_cases [of options] by (auto simp: cellH_def)
  show "cell_x options (r * cols options + c)
         = margin options + real c * (cellW options + gap options)"
    by (rule cell_xy [OF assms(6)])
  show y: "cell_y options (r * cols options + c)
         = sheet_h options - margin options - real (r + 1) * cellH options - real r * gap options"
    using cell_xy(2) [OF assms(6), of r] by simp
next
  fix r' c'
  assume a: "r' < r \<and> c' < cols options"
  let ?p = "cellH options + gap options"
  from a have c': "c' < cols options" and rr: "r' < r" by simp_all
  have p: "0 < ?p"
    by (rule row_pitch_pos [OF assms(2) assms(3)])
  have g: "0 \<le> gap options"
    using assms(3) by (simp add: gap_def MM_TO_PT_def)
  from rr have "real r' + 1 \<le> real r" by linarith
  then have "(real r' + 1) * ?p \<le> real r * ?p"
    using p by (intro mult_right_mono) simp_all
  then have "real r' * ?p + cellH options \<le> real r * ?p"
    using g by (simp add: algebra_simps)
  moreover have "cell_y options (r * cols options + c)
      = sheet_h options - margin options - cellH options - real r * ?p"
    using cell_xy(2) [OF assms(6), of r] by (simp add: algebra_simps)
  moreover have "cell_y options (r' * cols options + c')
      = sheet_h options - margin options - cellH options - real r' * ?p"
    using cell_xy(2) [OF c', of r'] by (simp add: algebra_simps)
  ultimately show "cell_y options (r * cols options + c) + cellH options
             \<le> cell_y options (r' * cols options + c')"
    by linarith
qed

theorem geometry_witness:
  "0 \<le> margin_mm sample_options \<and> margin_mm sample_options \<le> 50
   \<and> 0 \<le> gap_mm sample_options \<and> gap_mm sample_options \<le> 50
   \<and> 1 < rows sample_options \<and> 2 < cols sample_options
   \<and> (sheet_w sample_options, sheet_h sample_options) = (842, 595)
   \<and> margin sample_options = 6 * 72 / 25.4
   \<and> cell_x sample_options 6
       = margin sample_options + 2 * (cellW sample_options + gap sample_options)
   \<and> cell_y sample_options 6
       = sheet_h sample_options - margin sample_options - 2 * cellH sample_options
           - gap sample_options
   \<and> cell_y sample_options 6 + cellH sample_options \<le> cell_y sample_options 3"
proof -
  have h: "0 \<le> margin_mm sample_options" "margin_mm sample_options \<le> 50"
    "0 \<le> gap_mm sample_options" "gap_mm sample_options \<le> 50"
    "1 < rows sample_options" "2 < cols sample_options"
    by (simp_all add: sample_options_def rows_def cols_def grid_def)
  have c: "cols sample_options = 4"
    by (simp add: sample_options_def cols_def grid_def)
  have m: "margin_mm sample_options = 6" "paper sample_options = A4"
    "orientation sample_options = landscape"
    by (simp_all add: sample_options_def)
  note g = geometry [OF h, of sample_load sample_files]
  from g have "(sheet_w sample_options, sheet_h sample_options) = (842, 595)"
    by (simp add: m)
  moreover from g have "margin sample_options = 6 * 72 / 25.4"
    by (simp add: m)
  moreover from g have "cell_x sample_options 6
       = margin sample_options + 2 * (cellW sample_options + gap sample_options)"
    by (simp add: c)
  moreover from g have "cell_y sample_options 6
       = sheet_h sample_options - margin sample_options - 2 * cellH sample_options
           - gap sample_options"
    by (simp add: c)
  moreover have "cell_y sample_options 6 + cellH sample_options \<le> cell_y sample_options 3"
  proof -
    from g have "\<forall>r' c'. r' < 1 \<and> c' < cols sample_options \<longrightarrow>
           cell_y sample_options (1 * cols sample_options + 2) + cellH sample_options
             \<le> cell_y sample_options (r' * cols sample_options + c')"
      by blast
    from this [rule_format, of 0 3] show ?thesis
      by (simp add: c)
  qed
  ultimately show ?thesis
    using h by simp
qed




text \<open>
  Claim C5 (flattening order). The flattened page sequence is the concatenation, in the
  order the inputs were supplied, of the pages of each accepted document in increasing
  page index (\<open>document_refs\<close>), so it has as many elements as the accepted documents have
  pages. Nothing is dropped or reordered afterwards: the pages drawn, read sheet by sheet
  and cell by cell, are the embedded forms of the flattened sequence. Hence a page of a
  document supplied earlier stands at an earlier position, that is on an earlier sheet or
  on the same sheet in an earlier cell.
\<close>

theorem flattening_order:
  "flatten load inputFiles
     = concat (map (\<lambda>(k, file). document_refs load k file) (enumerate 0 inputFiles))
   \<and> length (flatten load inputFiles)
     = sum_list (map (\<lambda>file. if accepted load file then length (parsed load file) else 0)
                  inputFiles)
   \<and> (\<exists>out. out_document load inputFiles options = Inr out
         \<and> concat (map (\<lambda>s. map drawn_page (draws s)) out)
             = map emb_of (flatten load inputFiles))
   \<and> (\<forall>g1 g2. g1 < length (flatten load inputFiles) \<and> g2 < length (flatten load inputFiles)
         \<and> doc_ref (doc (flatten load inputFiles ! g1))
             < doc_ref (doc (flatten load inputFiles ! g2))
        \<longrightarrow> g1 < g2
          \<and> (g1 div perSheet options < g2 div perSheet options
              \<or> (g1 div perSheet options = g2 div perSheet options
                  \<and> g1 mod perSheet options < g2 mod perSheet options)))"
proof (intro conjI allI impI)
  show "flatten load inputFiles
     = concat (map (\<lambda>(k, file). document_refs load k file) (enumerate 0 inputFiles))"
    by (rule flatten_eq)
  show "length (flatten load inputFiles)
     = sum_list (map (\<lambda>file. if accepted load file then length (parsed load file) else 0)
                  inputFiles)"
    by (simp only: flatten_eq length_refs)
  show "\<exists>out. out_document load inputFiles options = Inr out
         \<and> concat (map (\<lambda>s. map drawn_page (draws s)) out)
             = map emb_of (flatten load inputFiles)"
  proof -
    from out_document_ok [of load inputFiles options]
    obtain out where o: "out_document load inputFiles options = Inr out" by blast
    then have "sheet_loop options (flatten load inputFiles) 0 = Inr out"
      by (simp add: out_document_def)
    from sheet_loop_pages [OF flatten_in_range this] o show ?thesis
      by simp
  qed
next
  fix g1 g2
  assume a: "g1 < length (flatten load inputFiles) \<and> g2 < length (flatten load inputFiles)
         \<and> doc_ref (doc (flatten load inputFiles ! g1))
             < doc_ref (doc (flatten load inputFiles ! g2))"
  then show "g1 < g2"
    using flatten_ref_order [of g1 load inputFiles g2] by blast
  then show "g1 div perSheet options < g2 div perSheet options
              \<or> (g1 div perSheet options = g2 div perSheet options
                  \<and> g1 mod perSheet options < g2 mod perSheet options)"
    by (rule position_order)
qed

theorem flattening_order_witness:
  "map (\<lambda>p. (doc_ref (doc p), pageIndex p)) (flatten sample_load sample_files)
     = [(0, 0), (2, 0), (2, 1), (2, 2), (2, 3), (2, 4), (2, 5), (2, 6), (2, 7), (2, 8)]
   \<and> length (flatten sample_load sample_files) = 1 + 0 + 9 + 0 + 0
   \<and> doc_ref (doc (flatten sample_load sample_files ! 0))
       < doc_ref (doc (flatten sample_load sample_files ! 8))
   \<and> (0::nat) div perSheet sample_options < 8 div perSheet sample_options"
proof -
  have f: "flatten sample_load sample_files
     = concat (map (\<lambda>(k, file). document_refs sample_load k file) (enumerate 0 sample_files))"
    and o: "\<forall>g1 g2. g1 < length (flatten sample_load sample_files)
         \<and> g2 < length (flatten sample_load sample_files)
         \<and> doc_ref (doc (flatten sample_load sample_files ! g1))
             < doc_ref (doc (flatten sample_load sample_files ! g2))
        \<longrightarrow> g1 < g2
          \<and> (g1 div perSheet sample_options < g2 div perSheet sample_options
              \<or> (g1 div perSheet sample_options = g2 div perSheet sample_options
                  \<and> g1 mod perSheet sample_options < g2 mod perSheet sample_options))"
    using flattening_order [of sample_load sample_files sample_options] by blast+
  have r: "map (\<lambda>p. (doc_ref (doc p), pageIndex p)) (flatten sample_load sample_files)
     = [(0, 0), (2, 0), (2, 1), (2, 2), (2, 3), (2, 4), (2, 5), (2, 6), (2, 7), (2, 8)]"
    unfolding f
    by (simp add: sample_files_def document_refs_def sample_accepted sample_parsed
          sample_not_accepted upt_rec)
  have l: "length (flatten sample_load sample_files) = 10"
    using arg_cong [OF r, of length] by simp
  have h: "doc_ref (doc (flatten sample_load sample_files ! 0))
       < doc_ref (doc (flatten sample_load sample_files ! 8))"
    using arg_cong [OF r, of "\<lambda>xs. fst (xs ! 0) < fst (xs ! 8)"] l by simp
  from o [rule_format, of 0 8] l h have "(0::nat) div perSheet sample_options < 8 div perSheet sample_options"
    by (simp add: sample_perSheet)
  with r l h show ?thesis by simp
qed

text \<open>
  Claim C6 names the reason of the size and header check
  \<open>Not a valid document (bad header or too small)\<close>; the engine records
  \<open>Not a valid PDF (bad header or too small)\<close>, here for an empty buffer.
\<close>

theorem validator_contract_counterexample:
  "check_file sample_load 0 text_file
     = Inl \<lparr>path = ''notes.txt'', error = ''Not a valid PDF (bad header or too small)''\<rparr>
   \<and> length (data text_file) < 1024
   \<and> ''Not a valid PDF (bad header or too small)''
       \<noteq> ''Not a valid document (bad header or too small)''"
  by (simp add: check_file_def isProbablyPdf_def text_file_def)

text \<open>
  Claim C6 (validator contract), as it holds. An input is rejected exactly when its buffer
  has fewer than 1024 bytes, or does not start with the five bytes \<open>%PDF-\<close>, or the parser
  fails on it, or the parsed document has no page. The reason recorded is
  \<open>Not a valid PDF (bad header or too small)\<close> for the first two, the parser's message for
  the third, \<open>0 pages\<close> for the last. Every other input is accepted and contributes one
  page reference per page, in page order; a rejected input contributes its record and no
  page.
\<close>

theorem validator_contract:
  "check_file load k file =
     (if length (data file) < 1024 \<or> take 5 (data file) \<noteq> pdf_header
      then Inl \<lparr>path = name file, error = ''Not a valid PDF (bad header or too small)''\<rparr>
      else case load (data file) of
             Inl msg \<Rightarrow> Inl \<lparr>path = name file, error = msg\<rparr>
           | Inr pages \<Rightarrow>
               if pages = [] then Inl \<lparr>path = name file, error = ''0 pages''\<rparr>
               else Inr (map (\<lambda>i. \<lparr>doc = \<lparr>doc_ref = k, doc_pages = pages\<rparr>, pageIndex = i\<rparr>)
                          [0..<length pages]))
   \<and> (isl (check_file load k file) \<longleftrightarrow>
        length (data file) < 1024 \<or> take 5 (data file) \<noteq> pdf_header
        \<or> isl (load (data file)) \<or> load (data file) = Inr [])
   \<and> (accepted load file \<longleftrightarrow> \<not> isl (check_file load k file))
   \<and> rejected load [file] = (if accepted load file then [] else [projl (check_file load k file)])
   \<and> flatten load [file] = (if accepted load file then projr (check_file load 0 file) else [])"
proof -
  have 1: "check_file load k file =
     (if length (data file) < 1024 \<or> take 5 (data file) \<noteq> pdf_header
      then Inl \<lparr>path = name file, error = ''Not a valid PDF (bad header or too small)''\<rparr>
      else case load (data file) of
             Inl msg \<Rightarrow> Inl \<lparr>path = name file, error = msg\<rparr>
           | Inr pages \<Rightarrow>
               if pages = [] then Inl \<lparr>path = name file, error = ''0 pages''\<rparr>
               else Inr (map (\<lambda>i. \<lparr>doc = \<lparr>doc_ref = k, doc_pages = pages\<rparr>, pageIndex = i\<rparr>)
                          [0..<length pages]))"
    by (simp add: check_file_def isProbablyPdf_iff Let_def split: sum.splits)
  have 2: "isl (check_file load k file) \<longleftrightarrow>
        length (data file) < 1024 \<or> take 5 (data file) \<noteq> pdf_header
        \<or> isl (load (data file)) \<or> load (data file) = Inr []"
    by (auto simp: 1 split: sum.splits)
  have 3: "accepted load file \<longleftrightarrow> \<not> isl (check_file load k file)"
  proof (cases "accepted load file")
    case True
    then show ?thesis by (simp add: check_file_accepted)
  next
    case False
    from check_file_rejected [OF False, of k] False show ?thesis by auto
  qed
  have 4: "rejected load [file] = (if accepted load file then [] else [projl (check_file load k file)])"
  proof (cases "accepted load file")
    case True
    then show ?thesis by (simp add: rejected_eq rejection_accepted)
  next
    case False
    from check_file_rejected [OF False, of k] False show ?thesis
      by (auto simp: rejected_eq)
  qed
  have 5: "flatten load [file] = (if accepted load file then projr (check_file load 0 file) else [])"
    by (simp add: flatten_eq check_file_accepted document_refs_rejected)
  from 1 2 3 4 5 show ?thesis by blast
qed

theorem validator_contract_witness:
  "check_file sample_load 0 text_file
     = Inl \<lparr>path = ''notes.txt'', error = ''Not a valid PDF (bad header or too small)''\<rparr>
   \<and> check_file sample_load 3 \<lparr>name = ''broken.pdf'', data = sample_pdf 0\<rparr>
     = Inl \<lparr>path = ''broken.pdf'', error = ''Failed to parse PDF document''\<rparr>
   \<and> check_file sample_load 4 \<lparr>name = ''empty.pdf'', data = sample_pdf 1\<rparr>
     = Inl \<lparr>path = ''empty.pdf'', error = ''0 pages''\<rparr>
   \<and> check_file sample_load 0 \<lparr>name = ''a.pdf'', data = sample_pdf 3\<rparr>
     = Inr [\<lparr>doc = \<lparr>doc_ref = 0, doc_pages = replicate 2 \<lparr>page_width = 595, page_height = 842\<rparr>\<rparr>,
             pageIndex = 0\<rparr>,
            \<lparr>doc = \<lparr>doc_ref = 0, doc_pages = replicate 2 \<lparr>page_width = 595, page_height = 842\<rparr>\<rparr>,
             pageIndex = 1\<rparr>]"
proof -
  have a: "check_file sample_load 0 text_file
     = Inl \<lparr>path = ''notes.txt'', error = ''Not a valid PDF (bad header or too small)''\<rparr>"
    using validator_contract [of sample_load 0 text_file]
    by (simp add: text_file_def)
  have b: "check_file sample_load 3 \<lparr>name = ''broken.pdf'', data = sample_pdf 0\<rparr>
     = Inl \<lparr>path = ''broken.pdf'', error = ''Failed to parse PDF document''\<rparr>"
    using validator_contract [of sample_load 3 "\<lparr>name = ''broken.pdf'', data = sample_pdf 0\<rparr>"]
    by (simp add: sample_pdf_header sample_load_def)
  have c: "check_file sample_load 4 \<lparr>name = ''empty.pdf'', data = sample_pdf 1\<rparr>
     = Inl \<lparr>path = ''empty.pdf'', error = ''0 pages''\<rparr>"
    using validator_contract [of sample_load 4 "\<lparr>name = ''empty.pdf'', data = sample_pdf 1\<rparr>"]
    by (simp add: sample_pdf_header sample_load_def)
  have d: "check_file sample_load 0 \<lparr>name = ''a.pdf'', data = sample_pdf 3\<rparr>
     = Inr [\<lparr>doc = \<lparr>doc_ref = 0, doc_pages = replicate 2 \<lparr>page_width = 595, page_height = 842\<rparr>\<rparr>,
             pageIndex = 0\<rparr>,
            \<lparr>doc = \<lparr>doc_ref = 0, doc_pages = replicate 2 \<lparr>page_width = 595, page_height = 842\<rparr>\<rparr>,
             pageIndex = 1\<rparr>]"
    using validator_contract [of sample_load 0 "\<lparr>name = ''a.pdf'', data = sample_pdf 3\<rparr>"]
    by (simp add: sample_pdf_header sample_load_def upt_rec)
  from a b c d show ?thesis by blast
qed

text \<open>
  Claim C7 (partial-failure idempotence). Run the engine again on the inputs that were
  accepted, the rejected ones deleted. The accepted pages, each named by its input and its
  page index, form the same sequence as before, and the two output documents have the same
  sheets with the same placements (source page, origin and size) in the same cells.
  Document objects of two runs are different objects; pages are compared by the input
  they come from.
\<close>

theorem partial_failure_idempotence:
  "map (source_of (filter (accepted load) inputFiles))
       (flatten load (filter (accepted load) inputFiles))
     = map (source_of inputFiles) (flatten load inputFiles)
   \<and> (\<exists>out out'. out_document load inputFiles options = Inr out
         \<and> out_document load (filter (accepted load) inputFiles) options = Inr out'
         \<and> map (\<lambda>s. (sheet_size s, map (placement_of (filter (accepted load) inputFiles)) (draws s)))
               out'
             = map (\<lambda>s. (sheet_size s, map (placement_of inputFiles) (draws s))) out)"
proof -
  let ?fs = "filter (accepted load) inputFiles"
  let ?ps' = "flatten load ?fs" and ?ps = "flatten load inputFiles"
  let ?C = "perSheet options"
  have eq: "map (source_of ?fs) ?ps' = map (source_of inputFiles) ?ps"
    by (simp only: flatten_sources file_pages_filter)
  then have len: "length ?ps' = length ?ps"
    by (rule map_eq_imp_length_eq)
  note rel = flatten_related [of load inputFiles]
  from out_document_ok [of load inputFiles options]
  obtain out where o: "out_document load inputFiles options = Inr out"
    and l: "length out = (length ?ps + ?C - 1) div ?C"
    and n: "\<And>k. k < length out \<Longrightarrow> out ! k =
           \<lparr>sheet_size = (sheet_w options, sheet_h options),
            draws = placed options 0 (take ?C (drop (k * ?C) ?ps))\<rparr>"
    by blast
  from out_document_ok [of load ?fs options]
  obtain out' where o': "out_document load ?fs options = Inr out'"
    and l': "length out' = (length ?ps' + ?C - 1) div ?C"
    and n': "\<And>k. k < length out' \<Longrightarrow> out' ! k =
           \<lparr>sheet_size = (sheet_w options, sheet_h options),
            draws = placed options 0 (take ?C (drop (k * ?C) ?ps'))\<rparr>"
    by blast
  from l l' len have ll: "length out' = length out" by simp
  have "(sheet_size (out' ! k), map (placement_of ?fs) (draws (out' ! k)))
          = (sheet_size (out ! k), map (placement_of inputFiles) (draws (out ! k)))"
    if k: "k < length out" for k
  proof -
    from k ll have k': "k < length out'" by simp
    have "list_all2 (\<lambda>p' p. source_of ?fs p' = source_of inputFiles p
                  \<and> doc_pages (doc p') = doc_pages (doc p))
            (take ?C (drop (k * ?C) ?ps')) (take ?C (drop (k * ?C) ?ps))"
      by (intro list_all2_takeI list_all2_dropI rel)
    from placed_eq [OF this, of options 0] show ?thesis
      by (simp add: n [OF k] n' [OF k'])
  qed
  then have "map (\<lambda>s. (sheet_size s, map (placement_of ?fs) (draws s))) out'
             = map (\<lambda>s. (sheet_size s, map (placement_of inputFiles) (draws s))) out"
    using ll by (simp add: list_eq_iff_nth_eq)
  with eq o o' show ?thesis by blast
qed

theorem partial_failure_idempotence_witness:
  "map (source_of [\<lparr>name = ''a.pdf'', data = sample_pdf 2\<rparr>, \<lparr>name = ''b.pdf'', data = sample_pdf 10\<rparr>])
       (flatten sample_load
          [\<lparr>name = ''a.pdf'', data = sample_pdf 2\<rparr>, \<lparr>name = ''b.pdf'', data = sample_pdf 10\<rparr>])
     = map (source_of sample_files) (flatten sample_load sample_files)
   \<and> (\<exists>out out'. out_document sample_load sample_files sample_options = Inr out
         \<and> out_document sample_load
               [\<lparr>name = ''a.pdf'', data = sample_pdf 2\<rparr>, \<lparr>name = ''b.pdf'', data = sample_pdf 10\<rparr>]
               sample_options = Inr out'
         \<and> map (\<lambda>s. (sheet_size s,
                       map (placement_of [\<lparr>name = ''a.pdf'', data = sample_pdf 2\<rparr>,
                                          \<lparr>name = ''b.pdf'', data = sample_pdf 10\<rparr>]) (draws s))) out'
             = map (\<lambda>s. (sheet_size s, map (placement_of sample_files) (draws s))) out)"
  using partial_failure_idempotence [of sample_load sample_files sample_options]
  unfolding sample_filter .

text \<open>
  Claim C8 (zero valid inputs). When every supplied input is rejected (the empty list
  included), the engine returns a result with \<open>success = false\<close>, the error message set, no
  output bytes, and \<open>total_bad\<close> equal to the number of inputs.
\<close>

theorem zero_valid_inputs:
  assumes "list_all (\<lambda>f. \<not> accepted load f) inputFiles"
  shows "\<exists>r. impose8up load save inputFiles options = Inr r
     \<and> success r = False \<and> error_message r = Some no_valid_pdf \<and> no_valid_pdf \<noteq> []
     \<and> pdfBytes r = None \<and> total_bad r = length inputFiles"
proof -
  from assms have e: "flatten load inputFiles = []"
    by (simp add: flatten_empty_iff)
  have "filter (\<lambda>f. \<not> accepted load f) inputFiles = inputFiles"
    using assms by (simp add: list_all_iff)
  then show ?thesis
    by (simp add: impose8up_failure [OF e] length_rejected no_valid_pdf_def)
qed

theorem zero_valid_inputs_witness:
  "list_all (\<lambda>f. \<not> accepted sample_load f) [text_file, \<lparr>name = ''broken.pdf'', data = sample_pdf 0\<rparr>]
   \<and> (\<exists>r. impose8up sample_load sample_save
               [text_file, \<lparr>name = ''broken.pdf'', data = sample_pdf 0\<rparr>] sample_options = Inr r
          \<and> success r = False \<and> error_message r = Some no_valid_pdf \<and> pdfBytes r = None
          \<and> total_bad r = 2)"
proof -
  have h: "list_all (\<lambda>f. \<not> accepted sample_load f)
             [text_file, \<lparr>name = ''broken.pdf'', data = sample_pdf 0\<rparr>]"
    by (simp add: text_file_rejected sample_accepted)
  from zero_valid_inputs [OF h, of sample_save sample_options] h show ?thesis
    by auto
qed

text \<open>
  Claim C9 (bad-file aggregation cap). Whatever the inputs, the engine returns a result;
  its \<open>bad_files\<close> are the first \<open>min total_bad 50\<close> rejection records, in the order
  in which the rejected inputs were supplied, and \<open>total_bad\<close> is the number of rejected
  inputs, also beyond 50.
\<close>

theorem bad_file_cap:
  "\<exists>r. impose8up load save inputFiles options = Inr r
     \<and> bad_files r = take (min (total_bad r) 50) (concat (map (rejection load) inputFiles))
     \<and> total_bad r = length (concat (map (rejection load) inputFiles))
     \<and> total_bad r = length (filter (\<lambda>f. \<not> accepted load f) inputFiles)"
proof (cases "flatten load inputFiles = []")
  case True
  show ?thesis
    by (simp add: impose8up_failure [OF True] length_rejected [symmetric] rejected_eq min_def)
next
  case False
  from impose8up_success [OF False, of options save] show ?thesis
    by (auto simp: length_rejected [symmetric] rejected_eq min_def)
qed

theorem bad_file_cap_witness:
  "\<exists>r. impose8up sample_load sample_save (replicate 51 text_file) sample_options = Inr r
     \<and> length (bad_files r) = 50 \<and> total_bad r = 51"
  using bad_file_cap [of sample_load sample_save "replicate 51 text_file" sample_options]
  by (auto simp: text_file_rejected)

end
